theory Spec2Isabelle
  imports Main "HOL-Library.Word"
begin

section \<open>The EPUB page splitter (epubToImg.py)\<close>

text \<open>
  A shallow embedding of \<^verbatim>\<open>EPUBSmartSplitter\<close> and \<^verbatim>\<open>main\<close>. The browser page is
  a record that is passed through every call and returned updated; the loaded document is
  the function that paints a viewport. The loop of \<^verbatim>\<open>process_html\<close> may run forever
  (an accepted height of 0 makes no progress), so it returns an option.
\<close>

subsection \<open>Data model\<close>

text \<open>
  A capture is converted to mode \<^verbatim>\<open>L\<close>: one byte per pixel, rows from top to bottom.
  The written image has mode \<^verbatim>\<open>1\<close>, whose pixels are stored as 0 or 255.
\<close>

type_synonym pixel = "8 word"
type_synonym image = "pixel list list"

text \<open>
  What the browser knows of a loaded document: the scroll height it reports when
  \<^verbatim>\<open>process_html\<close> measures it and, for a viewport width, a viewport height and a
  scroll offset, the grayscale picture of the viewport. Rendering is taken to be
  deterministic: the same viewport at the same offset gives the same picture.
\<close>

record layout =
  scroll_height :: int
  paint :: "int \<Rightarrow> int \<Rightarrow> int \<Rightarrow> image"

text \<open>
  A content file of the spine. Its layout depends on the font size that
  \<^verbatim>\<open>process_html\<close> injects before it measures the height.
\<close>

type_synonym html_file = "string \<Rightarrow> layout"

text \<open>The fields of \<^verbatim>\<open>EPUBSmartSplitter\<close> that the pagination reads.\<close>

record splitter =
  width :: int
  base_height :: int
  threshold :: int
  text_size :: string

text \<open>
  The Playwright page: its viewport, the scroll offset of the scrolling element, the
  loaded document, and the number of screenshots taken so far.
\<close>

record page =
  vp_width :: int
  vp_height :: int
  scroll_top :: int
  loaded :: layout
  shots :: nat

subsection \<open>The rendering surface\<close>

definition set_viewport_size :: "int \<Rightarrow> int \<Rightarrow> page \<Rightarrow> page" where
  "set_viewport_size w h pg = pg\<lparr>vp_width := w, vp_height := h\<rparr>"

definition set_scroll_top :: "int \<Rightarrow> page \<Rightarrow> page" where
  "set_scroll_top y pg = pg\<lparr>scroll_top := y\<rparr>"

text \<open>The settle delay changes nothing that the model observes.\<close>

definition wait_for_timeout :: "nat \<Rightarrow> page \<Rightarrow> page" where
  "wait_for_timeout ms pg = pg"

text \<open>
  \<^verbatim>\<open>Image.open(BytesIO(page.screenshot())).convert("L")\<close>: the picture of the current
  viewport at the current scroll offset; the capture is counted.
\<close>

definition screenshot :: "page \<Rightarrow> image \<times> page" where
  "screenshot pg =
     (paint (loaded pg) (vp_width pg) (vp_height pg) (scroll_top pg),
      pg\<lparr>shots := Suc (shots pg)\<rparr>)"

text \<open>
  \<^verbatim>\<open>page.goto\<close> followed by the two style injections: the document is laid out with
  the font size of the splitter, and a fresh document starts at scroll offset 0.
\<close>

definition goto :: "splitter \<Rightarrow> html_file \<Rightarrow> page \<Rightarrow> page" where
  "goto sp html pg = pg\<lparr>loaded := html (text_size sp), scroll_top := 0\<rparr>"

subsection \<open>is\_text\_cut\_off\<close>

text \<open>
  The crop \<^verbatim>\<open>(0, height - 1, width, height)\<close> is the last row. A decoded capture
  always has at least one row. For an image without rows the crop would lie outside the
  image and be filled with zeros; the model takes the empty row there, and no statement
  below is about that case.
\<close>

definition bottom_row :: "image \<Rightarrow> pixel list" where
  "bottom_row img = (if img = [] then [] else last img)"

definition is_text_cut_off :: "splitter \<Rightarrow> image \<Rightarrow> bool" where
  "is_text_cut_off sp img = list_ex (\<lambda>p. uint p < threshold sp) (bottom_row img)"

subsection \<open>find\_clean\_break\<close>

text \<open>
  \<^verbatim>\<open>int(self.base_height * 0.3)\<close>: the product is a double and \<^verbatim>\<open>int\<close> truncates
  towards zero. The model computes the truncation of the exact value \<open>3 * b / 10\<close>. The
  double product has the same integer part for every height of absolute value below
  \<open>2 ^ 50\<close>: there the height converts exactly, a multiple of 10 gives a product that
  rounds to the integer itself, and any other height gives a product whose distance
  from the integers on both sides is larger than the rounding error. From about \<open>2 ^ 52\<close>
  on the double product can be one less than the exact floor, and beyond the range of a
  double the conversion raises; a statement about the value of the floor therefore
  carries the bound \<open>2 ^ 50\<close>.
\<close>

definition min_height_of :: "int \<Rightarrow> int" where
  "min_height_of b = (if 0 \<le> b then (3 * b) div 10 else - ((3 * (- b)) div 10))"

text \<open>\<^verbatim>\<open>range(start, stop, -1)\<close>: \<open>start, start - 1, \<dots>\<close> as long as the value is above \<open>stop\<close>.\<close>

function range_down :: "int \<Rightarrow> int \<Rightarrow> int list" where
  "range_down start stop = (if stop < start then start # range_down (start - 1) stop else [])"
  by pat_completeness auto
termination
  by (relation "measure (\<lambda>(start, stop). nat (start - stop))") auto

declare range_down.simps [simp del]

text \<open>
  The body of the \<^verbatim>\<open>for\<close> loop over the candidate heights: resize, scroll, wait,
  capture, test the bottom row; the first clean candidate ends the loop. When the
  candidates run out, \<^verbatim>\<open>best_height\<close> still has the value it had before the loop.
\<close>

fun scan_heights :: "splitter \<Rightarrow> int \<Rightarrow> int list \<Rightarrow> int \<Rightarrow> page \<Rightarrow> int \<times> page" where
  "scan_heights sp current_top [] best_height pg = (best_height, pg)"
| "scan_heights sp current_top (test_height # rest) best_height pg =
     (let pg1 = set_viewport_size (width sp) test_height pg;
          pg2 = set_scroll_top current_top pg1;
          pg3 = wait_for_timeout 50 pg2;
          (shot, pg4) = screenshot pg3
      in if \<not> is_text_cut_off sp shot then (test_height, pg4)
         else scan_heights sp current_top rest best_height pg4)"

definition candidates :: "splitter \<Rightarrow> int \<Rightarrow> int list" where
  "candidates sp max_height =
     range_down (min max_height (base_height sp)) (min_height_of (base_height sp) - 1)"

definition find_clean_break :: "splitter \<Rightarrow> page \<Rightarrow> int \<Rightarrow> int \<Rightarrow> int \<times> page" where
  "find_clean_break sp pg current_top max_height =
     (let min_height = min_height_of (base_height sp);
          current_height = min max_height (base_height sp);
          best_height = current_height
      in scan_heights sp current_top (range_down current_height (min_height - 1))
           best_height pg)"

text \<open>
  The capture that the loop of \<^verbatim>\<open>find_clean_break\<close> inspects for one candidate
  height: the page is resized and scrolled, then captured.
\<close>

definition probe :: "splitter \<Rightarrow> page \<Rightarrow> int \<Rightarrow> int \<Rightarrow> image" where
  "probe sp pg current_top h =
     fst (screenshot (wait_for_timeout 50
       (set_scroll_top current_top (set_viewport_size (width sp) h pg))))"

subsection \<open>The binarizer and the file names\<close>

text \<open>\<^verbatim>\<open>screenshot.point(lambda p: 255 if p > self.threshold else 0, mode="1")\<close>.\<close>

definition binarize_pixel :: "splitter \<Rightarrow> pixel \<Rightarrow> pixel" where
  "binarize_pixel sp p = (if uint p > threshold sp then 255 else 0)"

definition point_image :: "(pixel \<Rightarrow> pixel) \<Rightarrow> image \<Rightarrow> image" where
  "point_image f img = map (map f) img"

text \<open>
  \<^verbatim>\<open>f"{idx:04d}.png"\<close>: the decimal digits, padded with zeros on the left to four
  characters; the sign of a negative number counts as one of the four.
\<close>

fun dec_digits :: "nat \<Rightarrow> string" where
  "dec_digits n =
     (if n < 10 then [''0123456789'' ! n]
      else dec_digits (n div 10) @ [''0123456789'' ! (n mod 10)])"

declare dec_digits.simps [simp del]

definition zfill :: "nat \<Rightarrow> string \<Rightarrow> string" where
  "zfill k s = replicate (k - length s) CHR ''0'' @ s"

definition format_04d :: "int \<Rightarrow> string" where
  "format_04d i =
     (if i < 0 then CHR ''-'' # zfill 3 (dec_digits (nat (- i)))
      else zfill 4 (dec_digits (nat i)))"

definition page_file_name :: "int \<Rightarrow> string" where
  "page_file_name i = format_04d i @ ''.png''"

subsection \<open>process\_html\<close>

text \<open>
  One entry per run of the loop body: the file that is saved, and the scroll offset and
  viewport height that the page had when the saved picture was captured.
\<close>

record output_page =
  out_name :: string
  out_image :: image
  out_top :: int
  out_height :: int

text \<open>The variables of the \<^verbatim>\<open>while\<close> loop, the files written so far and the page.\<close>

record paging =
  current_top :: int
  idx :: int
  emitted :: "output_page list"
  surface :: page

definition paging_step :: "splitter \<Rightarrow> int \<Rightarrow> paging \<Rightarrow> paging" where
  "paging_step sp total_height st =
     (let remaining_height = total_height - current_top st;
          (viewport_height, pg1) =
             find_clean_break sp (surface st) (current_top st) remaining_height;
          pg2 = set_viewport_size (width sp) viewport_height pg1;
          pg3 = set_scroll_top (current_top st) pg2;
          pg4 = wait_for_timeout 100 pg3;
          (shot, pg5) = screenshot pg4;
          bw_image = point_image (binarize_pixel sp) shot;
          out = \<lparr>out_name = page_file_name (idx st), out_image = bw_image,
                 out_top = current_top st, out_height = viewport_height\<rparr>
      in \<lparr>current_top = current_top st + viewport_height, idx = idx st + 1,
          emitted = emitted st @ [out], surface = pg5\<rparr>)"

partial_function (option) paging_loop :: "splitter \<Rightarrow> int \<Rightarrow> paging \<Rightarrow> paging option" where
  "paging_loop sp total_height st =
     (if current_top st < total_height
      then paging_loop sp total_height (paging_step sp total_height st)
      else Some st)"

text \<open>The height that the locator returns in the loop state \<open>st\<close>.\<close>

definition accepted_height :: "splitter \<Rightarrow> int \<Rightarrow> paging \<Rightarrow> int" where
  "accepted_height sp total_height st =
     fst (find_clean_break sp (surface st) (current_top st) (total_height - current_top st))"

text \<open>The states that the loop passes through when it starts in \<open>st0\<close>.\<close>

inductive reached :: "splitter \<Rightarrow> int \<Rightarrow> paging \<Rightarrow> paging \<Rightarrow> bool"
  for sp :: splitter and total_height :: int and st0 :: paging where
  start: "reached sp total_height st0 st0"
| step: "reached sp total_height st0 st \<Longrightarrow> current_top st < total_height \<Longrightarrow>
         reached sp total_height st0 (paging_step sp total_height st)"

text \<open>
  The source returns the next index; the model returns with it the files written for
  this document and the page, which the next document reuses.
\<close>

definition start_paging :: "splitter \<Rightarrow> page \<Rightarrow> html_file \<Rightarrow> int \<Rightarrow> paging" where
  "start_paging sp pg html start_idx =
     \<lparr>current_top = 0, idx = start_idx, emitted = [], surface = goto sp html pg\<rparr>"

definition process_html ::
  "splitter \<Rightarrow> page \<Rightarrow> html_file \<Rightarrow> int \<Rightarrow> (int \<times> output_page list \<times> page) option" where
  "process_html sp pg html start_idx =
     (let st0 = start_paging sp pg html start_idx;
          total_height = scroll_height (loaded (surface st0))
      in case paging_loop sp total_height st0 of
           None \<Rightarrow> None
         | Some st \<Rightarrow> Some (idx st, emitted st, surface st))"

subsection \<open>process and main\<close>

datatype error =
  File_not_found string
| Runtime_error string
| Not_a_directory
| Usage_error string

text \<open>A new page of the browser context shows the blank document.\<close>

definition blank :: layout where
  "blank = \<lparr>scroll_height = 0,
            paint = (\<lambda>w h y. replicate (nat h) (replicate (nat w) 255))\<rparr>"

definition new_page :: "splitter \<Rightarrow> page" where
  "new_page sp =
     \<lparr>vp_width = width sp, vp_height = base_height sp, scroll_top = 0,
      loaded = blank, shots = 0\<rparr>"

text \<open>The \<^verbatim>\<open>for\<close> loop of \<^verbatim>\<open>process\<close> over the content files.\<close>

fun process_files ::
  "splitter \<Rightarrow> page \<Rightarrow> int \<Rightarrow> html_file list \<Rightarrow> (int \<times> output_page list \<times> page) option" where
  "process_files sp pg i [] = Some (i, [], pg)"
| "process_files sp pg i (html # rest) =
     (case process_html sp pg html i of
        None \<Rightarrow> None
      | Some (i', out, pg') \<Rightarrow>
          (case process_files sp pg' i' rest of
             None \<Rightarrow> None
           | Some (n, out', pg'') \<Rightarrow> Some (n, out @ out', pg'')))"

text \<open>
  \<^verbatim>\<open>extract_spine_htmls\<close> is not modelled: its result, the content files in reading
  order or the exception it raises, is an argument.
\<close>

definition process ::
  "splitter \<Rightarrow> error + html_file list \<Rightarrow> (error + int \<times> output_page list) option" where
  "process sp spine =
     (case spine of
        Inl e \<Rightarrow> Some (Inl e)
      | Inr html_files \<Rightarrow>
          (case process_files sp (new_page sp) 0 html_files of
             None \<Rightarrow> None
           | Some (n, out, pg) \<Rightarrow> Some (Inr (n, out))))"

text \<open>The output path: absent, a file, or a directory with the names of its entries.\<close>

datatype outdir = Missing | Plain_file | Directory "string list"

record args =
  arg_width :: int
  arg_height :: int
  arg_threshold :: int
  arg_text_size :: string

definition save_file :: "string list \<Rightarrow> string \<Rightarrow> string list" where
  "save_file entries name = (if name \<in> set entries then entries else entries @ [name])"

text \<open>The constructor call of \<^verbatim>\<open>main\<close>, without the two paths.\<close>

definition splitter_of_args :: "args \<Rightarrow> splitter" where
  "splitter_of_args a =
     \<lparr>width = arg_width a, base_height = arg_height a,
      threshold = arg_threshold a, text_size = arg_text_size a\<rparr>"

text \<open>
  \<^verbatim>\<open>main\<close> returns the outcome and the output path as the run leaves it. A non-empty
  directory is refused by \<^verbatim>\<open>parser.error\<close>; \<^verbatim>\<open>iterdir\<close> on a file raises. Otherwise
  the constructor creates the directory if it is missing and \<^verbatim>\<open>process\<close> runs; the
  outcome of a complete run is the number of files it reports.
\<close>

definition main ::
  "args \<Rightarrow> outdir \<Rightarrow> error + html_file list \<Rightarrow> ((error + int) \<times> outdir) option" where
  "main a out_dir spine =
     (case out_dir of
        Directory (e # es) \<Rightarrow>
          Some (Inl (Usage_error ''Output directory must be empty''), out_dir)
      | Plain_file \<Rightarrow> Some (Inl Not_a_directory, out_dir)
      | _ \<Rightarrow>
          (case process (splitter_of_args a) spine of
             None \<Rightarrow> None
           | Some (Inl e) \<Rightarrow> Some (Inl e, Directory [])
           | Some (Inr (n, out)) \<Rightarrow>
               Some (Inr n, Directory (foldl save_file [] (map out_name out)))))"

subsection \<open>Example configurations and documents\<close>

text \<open>
  The candidates of one call of \<^verbatim>\<open>find_clean_break\<close> are all cut off: every capture
  the loop would take has a pixel below the threshold in its bottom row.
\<close>

definition none_clean :: "splitter \<Rightarrow> page \<Rightarrow> int \<Rightarrow> int list \<Rightarrow> bool" where
  "none_clean sp pg y hs = list_all (\<lambda>h. is_text_cut_off sp (probe sp pg y h)) hs"

text \<open>A document of one gray level \<open>c\<close> and scroll height \<open>H\<close>, whatever the font size.\<close>

definition uniform :: "pixel \<Rightarrow> int \<Rightarrow> html_file" where
  "uniform c H = (\<lambda>font_size. \<lparr>scroll_height = H,
      paint = (\<lambda>w h y. replicate (nat h) (replicate (nat w) c))\<rparr>)"

definition small_splitter :: splitter where
  "small_splitter = \<lparr>width = 2, base_height = 10, threshold = 220, text_size = ''16px''\<rparr>"

text \<open>The defaults of the command line.\<close>

definition default_splitter :: splitter where
  "default_splitter =
     \<lparr>width = 758, base_height = 940, threshold = 220, text_size = ''16px''\<rparr>"

text \<open>A configuration with a negative base height, which the argument parser accepts.\<close>

definition negative_splitter :: splitter where
  "negative_splitter =
     \<lparr>width = 2, base_height = - 10, threshold = 220, text_size = ''16px''\<rparr>"

definition negative_page :: page where
  "negative_page = goto negative_splitter (uniform 255 5) (new_page negative_splitter)"

definition black_page :: page where
  "black_page = goto small_splitter (uniform 0 25) (new_page small_splitter)"

text \<open>
  A ruled document: of every four pixel rows, counted from the top of the document, the
  first two are black and the other two white.
\<close>

definition ruled :: "int \<Rightarrow> html_file" where
  "ruled H = (\<lambda>font_size. \<lparr>scroll_height = H,
      paint = (\<lambda>w h y. map (\<lambda>i. replicate (nat w) (if i mod 4 < 2 then 0 else 255))
                 [y..y + h - 1])\<rparr>)"

definition ruled_page :: page where
  "ruled_page = goto small_splitter (ruled 25) (new_page small_splitter)"

definition short_page :: page where
  "short_page = goto default_splitter (uniform 0 100) (new_page default_splitter)"

text \<open>
  A document of two pixel rows with gray levels on both sides of the threshold 220, one
  whose every pixel has the threshold's value, and the small configuration as arguments
  of the command line.
\<close>

definition gray_page :: html_file where
  "gray_page = (\<lambda>font_size. \<lparr>scroll_height = 2,
      paint = (\<lambda>w h y. [[255, 221], [220, 0]])\<rparr>)"

definition edge_page :: html_file where
  "edge_page = uniform 220 10"

definition small_args :: args where
  "small_args = \<lparr>arg_width = 2, arg_height = 10, arg_threshold = 220, arg_text_size = ''16px''\<rparr>"

text \<open>
  The pages \<open>ps\<close>, in order, cut the range from \<open>a\<close> to \<open>b\<close> into consecutive
  pieces: each page starts where the one before it ends, and no page is empty.
\<close>

fun tiles_from :: "int \<Rightarrow> output_page list \<Rightarrow> int \<Rightarrow> bool" where
  "tiles_from a [] b = (a = b)"
| "tiles_from a (p # ps) b =
     (out_top p = a \<and> 0 < out_height p \<and> tiles_from (a + out_height p) ps b)"

section \<open>Properties of the clean-break locator\<close>

subsection \<open>Auxiliary facts\<close>

lemma probe_paint: "probe sp pg t h = paint (loaded pg) (width sp) h t"
  by (simp add: probe_def screenshot_def wait_for_timeout_def set_scroll_top_def
      set_viewport_size_def)

lemma set_range_down: "set (range_down start stop) = {stop<..start}"
proof (induction start stop rule: range_down.induct)
  case (1 start stop)
  show ?case
  proof (cases "stop < start")
    case True
    with "1.IH" have "set (range_down (start - 1) stop) = {stop<..start - 1}" by simp
    with True show ?thesis by (subst range_down.simps) auto
  next
    case False
    then show ?thesis by (subst range_down.simps) simp
  qed
qed

lemma length_range_down: "length (range_down start stop) = nat (start - stop)"
proof (induction start stop rule: range_down.induct)
  case (1 start stop)
  show ?case
  proof (cases "stop < start")
    case True
    with "1.IH" have "length (range_down (start - 1) stop) = nat (start - 1 - stop)" by simp
    with True show ?thesis by (subst range_down.simps) (simp add: nat_diff_distrib)
  next
    case False
    then show ?thesis by (subst range_down.simps) simp
  qed
qed

lemma range_down_split:
  "stop < r \<Longrightarrow> r \<le> start \<Longrightarrow>
   range_down start stop = range_down start r @ r # range_down (r - 1) stop"
proof (induction start r rule: range_down.induct)
  case (1 start r)
  show ?case
  proof (cases "r < start")
    case True
    with "1.prems" "1.IH"
    have "range_down (start - 1) stop = range_down (start - 1) r @ r # range_down (r - 1) stop"
      by simp
    with True "1.prems" show ?thesis
      by (simp add: range_down.simps [of start stop] range_down.simps [of start r])
  next
    case False
    with "1.prems" have "start = r" by simp
    with "1.prems" show ?thesis
      by (simp add: range_down.simps [of r stop] range_down.simps [of r r])
  qed
qed

lemma scan_heights_frame:
  "loaded (snd (scan_heights sp t hs best pg)) = loaded pg"
  by (induction hs arbitrary: pg)
     (simp_all add: screenshot_def wait_for_timeout_def set_scroll_top_def
        set_viewport_size_def Let_def)

lemma scan_heights_none_clean:
  "\<forall>h \<in> set hs. is_text_cut_off sp (paint (loaded pg) (width sp) h t) \<Longrightarrow>
   fst (scan_heights sp t hs best pg) = best \<and>
   shots (snd (scan_heights sp t hs best pg)) = shots pg + length hs"
  by (induction hs arbitrary: pg)
     (simp_all add: screenshot_def wait_for_timeout_def set_scroll_top_def
        set_viewport_size_def Let_def)

lemma scan_heights_first_clean:
  "\<forall>h \<in> set pre. is_text_cut_off sp (paint (loaded pg) (width sp) h t) \<Longrightarrow>
   \<not> is_text_cut_off sp (paint (loaded pg) (width sp) r t) \<Longrightarrow>
   fst (scan_heights sp t (pre @ r # post) best pg) = r \<and>
   shots (snd (scan_heights sp t (pre @ r # post) best pg)) = shots pg + length pre + 1"
  by (induction pre arbitrary: pg)
     (simp_all add: screenshot_def wait_for_timeout_def set_scroll_top_def
        set_viewport_size_def Let_def)

lemma scan_heights_shots:
  "shots pg \<le> shots (snd (scan_heights sp t hs best pg)) \<and>
   shots (snd (scan_heights sp t hs best pg)) \<le> shots pg + length hs"
proof (induction hs arbitrary: pg)
  case Nil
  show ?case by simp
next
  case (Cons h hs)
  let ?pg = "pg\<lparr>vp_width := width sp, vp_height := h, scroll_top := t, shots := Suc (shots pg)\<rparr>"
  from Cons.IH [of ?pg] show ?case
    by (simp add: screenshot_def wait_for_timeout_def set_scroll_top_def
        set_viewport_size_def Let_def)
qed

lemma scan_heights_result:
  "fst (scan_heights sp t hs best pg) = best \<or> fst (scan_heights sp t hs best pg) \<in> set hs"
  by (induction hs arbitrary: pg)
     (auto simp add: screenshot_def wait_for_timeout_def set_scroll_top_def
        set_viewport_size_def Let_def)

lemma cut_off_uniform:
  "is_text_cut_off sp (replicate n (replicate m c))
     \<longleftrightarrow> 0 < n \<and> 0 < m \<and> uint c < threshold sp"
  by (auto simp add: is_text_cut_off_def bottom_row_def list_ex_iff)

lemma find_clean_break_candidates:
  "find_clean_break sp pg y max_height =
     scan_heights sp y (candidates sp max_height) (min max_height (base_height sp)) pg"
  by (simp add: find_clean_break_def candidates_def Let_def)

lemma nth_range_down:
  "i < length (range_down start stop) \<Longrightarrow> range_down start stop ! i = start - int i"
proof (induction start stop arbitrary: i rule: range_down.induct)
  case (1 start stop)
  show ?case
  proof (cases "stop < start")
    case True
    show ?thesis
    proof (cases i)
      case 0
      with True show ?thesis by (simp add: range_down.simps [of start stop])
    next
      case (Suc j)
      with "1.prems" True have "j < length (range_down (start - 1) stop)"
        by (simp add: range_down.simps [of start stop])
      with "1.IH" True have "range_down (start - 1) stop ! j = start - 1 - int j" by simp
      with True Suc show ?thesis by (simp add: range_down.simps [of start stop])
    qed
  next
    case False
    with "1.prems" show ?thesis by (simp add: range_down.simps [of start stop])
  qed
qed

lemma last_upto: "i \<le> j \<Longrightarrow> last [i..j] = j"
  by (simp add: upto_rec2)

lemma cut_off_ruled:
  "0 < h \<Longrightarrow> is_text_cut_off small_splitter (paint (ruled H s) 2 h y) \<longleftrightarrow> (y + h - 1) mod 4 < 2"
  by (simp add: ruled_def is_text_cut_off_def bottom_row_def last_map small_splitter_def
      list_ex_iff last_upto)

lemma min_height_of_nonneg: "0 \<le> b \<Longrightarrow> min_height_of b = (3 * b) div 10"
  by (simp add: min_height_of_def)

lemma min_height_of_le: "0 \<le> b \<Longrightarrow> min_height_of b \<le> b"
  by (simp add: min_height_of_def)

subsection \<open>No clean candidate\<close>

text \<open>
  C1 (amended). Let \<open>startHeight = min(maxCandidateHeight, baseHeight)\<close> be at least
  \<open>minHeight\<close>. If no candidate height in \<open>[minHeight, startHeight]\<close> yields a capture
  with a clean bottom row, the locator returns \<open>startHeight\<close>, the value that
  \<^verbatim>\<open>best_height\<close> has before the loop, and not \<open>minHeight\<close>.
\<close>

theorem find_clean_break_none_clean:
  assumes "min_height_of (base_height sp) \<le> min max_height (base_height sp)"
    and "\<forall>h. min_height_of (base_height sp) \<le> h \<and> h \<le> min max_height (base_height sp)
          \<longrightarrow> is_text_cut_off sp (probe sp pg y h)"
  shows "fst (find_clean_break sp pg y max_height) = min max_height (base_height sp)"
proof -
  let ?hs = "range_down (min max_height (base_height sp)) (min_height_of (base_height sp) - 1)"
  from assms(2)
  have "\<forall>h \<in> set ?hs. is_text_cut_off sp (paint (loaded pg) (width sp) h y)"
    by (simp add: set_range_down probe_paint)
  then have "fst (scan_heights sp y ?hs (min max_height (base_height sp)) pg)
      = min max_height (base_height sp)"
    using scan_heights_none_clean by blast
  then show ?thesis by (simp add: find_clean_break_def Let_def)
qed

theorem find_clean_break_none_clean_witness:
  "min_height_of (base_height small_splitter) \<le> min 10 (base_height small_splitter)
   \<and> fst (find_clean_break small_splitter black_page 0 10) = 10"
  using find_clean_break_none_clean [of small_splitter 10 black_page 0]
  by (simp add: small_splitter_def black_page_def min_height_of_def probe_paint goto_def
      uniform_def new_page_def cut_off_uniform)

text \<open>
  C1 as stated fails: base height 10 gives the floor 3; on a black document none of the
  candidates 10, 9, \<dots>, 3 is clean, and the locator returns 10.
\<close>

theorem find_clean_break_none_clean_counterexample:
  "min_height_of (base_height small_splitter) \<le> min 10 (base_height small_splitter)
   \<and> none_clean small_splitter black_page 0 (candidates small_splitter 10)
   \<and> min_height_of (base_height small_splitter) = 3
   \<and> fst (find_clean_break small_splitter black_page 0 10) = 10
   \<and> fst (find_clean_break small_splitter black_page 0 10)
       \<noteq> min_height_of (base_height small_splitter)"
  by (simp add: small_splitter_def black_page_def none_clean_def candidates_def
      min_height_of_def range_down.simps probe_paint goto_def uniform_def new_page_def
      cut_off_uniform find_clean_break_def screenshot_def
      wait_for_timeout_def set_scroll_top_def set_viewport_size_def Let_def)

subsection \<open>The largest clean candidate\<close>

text \<open>
  C2. If some candidate height \<open>h\<close> in \<open>[minHeight, startHeight]\<close> yields a capture, at
  scroll offset \<open>y\<close> and viewport height \<open>h\<close>, whose bottom row has no pixel below the
  threshold, the locator returns the largest such height: the result is clean, every
  larger candidate up to \<open>startHeight\<close> is cut off, the candidates are
  \<open>startHeight, startHeight - 1, \<dots>\<close>, and the scan stops at the result, after one
  capture for each candidate from \<open>startHeight\<close> down to it.
\<close>

theorem find_clean_break_largest_clean:
  assumes lo: "min_height_of (base_height sp) \<le> h"
    and hi: "h \<le> min max_height (base_height sp)"
    and clean: "\<not> is_text_cut_off sp (probe sp pg y h)"
  shows "fst (find_clean_break sp pg y max_height) =
           Max {k. min_height_of (base_height sp) \<le> k \<and> k \<le> min max_height (base_height sp)
                   \<and> \<not> is_text_cut_off sp (probe sp pg y k)}
       \<and> \<not> is_text_cut_off sp (probe sp pg y (fst (find_clean_break sp pg y max_height)))
       \<and> (\<forall>k. fst (find_clean_break sp pg y max_height) < k
               \<and> k \<le> min max_height (base_height sp)
             \<longrightarrow> is_text_cut_off sp (probe sp pg y k))
       \<and> (\<forall>i < length (candidates sp max_height).
             candidates sp max_height ! i = min max_height (base_height sp) - int i)
       \<and> shots (snd (find_clean_break sp pg y max_height)) =
           shots pg + nat (min max_height (base_height sp)
                            - fst (find_clean_break sp pg y max_height) + 1)"
proof -
  let ?m = "min_height_of (base_height sp)"
  let ?s = "min max_height (base_height sp)"
  let ?C = "{k. ?m \<le> k \<and> k \<le> ?s \<and> \<not> is_text_cut_off sp (probe sp pg y k)}"
  define r where "r = Max ?C"
  have fin: "finite ?C" by (rule finite_subset [of _ "{?m..?s}"]) auto
  from lo hi clean have ne: "?C \<noteq> {}" by blast
  from fin ne have "Max ?C \<in> ?C" by (rule Max_in)
  then have rC: "r \<in> ?C" unfolding r_def .
  then have r_lo: "?m \<le> r" and r_hi: "r \<le> ?s"
    and r_clean: "\<not> is_text_cut_off sp (probe sp pg y r)" by blast+
  have above: "is_text_cut_off sp (probe sp pg y k)" if "r < k" "k \<le> ?s" for k
  proof (rule ccontr)
    assume "\<not> is_text_cut_off sp (probe sp pg y k)"
    with that r_lo have "k \<in> ?C" by simp
    with fin have "k \<le> Max ?C" by (rule Max_ge)
    with that show False unfolding r_def by linarith
  qed
  have split: "range_down ?s (?m - 1) = range_down ?s r @ r # range_down (r - 1) (?m - 1)"
  proof (rule range_down_split)
    from r_lo show "?m - 1 < r" by linarith
    from r_hi show "r \<le> ?s" .
  qed
  have pre: "\<forall>k \<in> set (range_down ?s r).
      is_text_cut_off sp (paint (loaded pg) (width sp) k y)"
    using above by (simp add: set_range_down probe_paint)
  from r_clean have "\<not> is_text_cut_off sp (paint (loaded pg) (width sp) r y)"
    by (simp add: probe_paint)
  with pre have scan:
    "fst (scan_heights sp y (range_down ?s r @ r # range_down (r - 1) (?m - 1)) ?s pg) = r
     \<and> shots (snd (scan_heights sp y (range_down ?s r @ r # range_down (r - 1) (?m - 1)) ?s pg))
         = shots pg + length (range_down ?s r) + 1"
    by (rule scan_heights_first_clean)
  have fcb: "find_clean_break sp pg y max_height =
      scan_heights sp y (range_down ?s r @ r # range_down (r - 1) (?m - 1)) ?s pg"
    unfolding find_clean_break_def Let_def by (subst split) (rule refl)
  have len: "length (range_down ?s r) + 1 = nat (?s - r + 1)"
    using r_hi unfolding length_range_down by linarith
  have res: "fst (find_clean_break sp pg y max_height) = r"
    unfolding fcb using scan by (rule conjunct1)
  have "shots (snd (find_clean_break sp pg y max_height))
      = shots pg + length (range_down ?s r) + 1"
    unfolding fcb using scan by (rule conjunct2)
  with len have cnt:
    "shots (snd (find_clean_break sp pg y max_height)) = shots pg + nat (?s - r + 1)"
    by linarith
  have order: "\<forall>i < length (candidates sp max_height). candidates sp max_height ! i = ?s - int i"
    by (simp add: candidates_def nth_range_down)
  show ?thesis
    unfolding res using r_def r_clean above cnt [unfolded res] order by blast
qed

theorem find_clean_break_largest_clean_witness:
  "min_height_of (base_height small_splitter) \<le> 4
   \<and> 4 \<le> min 25 (base_height small_splitter)
   \<and> \<not> is_text_cut_off small_splitter (probe small_splitter ruled_page 0 4)
   \<and> fst (find_clean_break small_splitter ruled_page 0 25) = 8
   \<and> Max {k. min_height_of (base_height small_splitter) \<le> k
             \<and> k \<le> min 25 (base_height small_splitter)
             \<and> \<not> is_text_cut_off small_splitter (probe small_splitter ruled_page 0 k)} = 8
   \<and> shots (snd (find_clean_break small_splitter ruled_page 0 25)) = shots ruled_page + 3"
proof -
  have lo: "min_height_of (base_height small_splitter) \<le> 4"
    by (simp add: small_splitter_def min_height_of_def)
  have hi: "4 \<le> min 25 (base_height small_splitter)"
    by (simp add: small_splitter_def)
  have clean: "\<not> is_text_cut_off small_splitter (probe small_splitter ruled_page 0 4)"
    by (simp add: probe_paint ruled_page_def goto_def cut_off_ruled)
      (simp add: small_splitter_def cut_off_ruled [unfolded small_splitter_def])
  have val: "fst (find_clean_break small_splitter ruled_page 0 25) = 8"
    by (simp add: find_clean_break_def Let_def min_height_of_def range_down.simps
        ruled_page_def goto_def new_page_def screenshot_def wait_for_timeout_def
        set_scroll_top_def set_viewport_size_def small_splitter_def
        cut_off_ruled [unfolded small_splitter_def])
  note largest = find_clean_break_largest_clean [OF lo hi clean]
  from largest have "fst (find_clean_break small_splitter ruled_page 0 25) =
      Max {k. min_height_of (base_height small_splitter) \<le> k
             \<and> k \<le> min 25 (base_height small_splitter)
             \<and> \<not> is_text_cut_off small_splitter (probe small_splitter ruled_page 0 k)}"
    by (rule conjunct1)
  then have mx: "Max {k. min_height_of (base_height small_splitter) \<le> k
             \<and> k \<le> min 25 (base_height small_splitter)
             \<and> \<not> is_text_cut_off small_splitter (probe small_splitter ruled_page 0 k)} = 8"
    unfolding val by (rule sym)
  from largest have "shots (snd (find_clean_break small_splitter ruled_page 0 25)) =
      shots ruled_page + nat (min 25 (base_height small_splitter)
        - fst (find_clean_break small_splitter ruled_page 0 25) + 1)"
    by (elim conjE)
  moreover have "nat (min 25 (base_height small_splitter) - 8 + 1) = 3"
    by (simp add: small_splitter_def)
  ultimately have sh: "shots (snd (find_clean_break small_splitter ruled_page 0 25)) =
      shots ruled_page + 3"
    unfolding val by (rule trans [OF _ arg_cong])
  from lo hi clean val mx sh show ?thesis by (intro conjI)
qed

subsection \<open>Bounds on the accepted height\<close>

text \<open>
  C4 (amended). For a base height from 0 to below \<open>2 ^ 50\<close>, the height returned by the
  locator lies in \<open>[floor(0.3 * baseHeight), min(baseHeight, remainingHeight)]\<close>, except
  when \<open>remainingHeight\<close> is below \<open>floor(0.3 * baseHeight)\<close>: then it is
  \<open>remainingHeight\<close>.
\<close>

theorem find_clean_break_bounds:
  assumes "0 \<le> base_height sp" and "base_height sp < 2 ^ 50"
  shows "(if remaining_height < (3 * base_height sp) div 10
          then fst (find_clean_break sp pg y remaining_height) = remaining_height
          else (3 * base_height sp) div 10 \<le> fst (find_clean_break sp pg y remaining_height)
             \<and> fst (find_clean_break sp pg y remaining_height)
                 \<le> min (base_height sp) remaining_height)"
proof -
  let ?m = "min_height_of (base_height sp)"
  let ?s = "min remaining_height (base_height sp)"
  let ?r = "fst (find_clean_break sp pg y remaining_height)"
  from assms(1) have m: "?m = (3 * base_height sp) div 10" by (rule min_height_of_nonneg)
  from assms(1) have mb: "?m \<le> base_height sp" by (rule min_height_of_le)
  have "?r = ?s \<or> ?r \<in> set (range_down ?s (?m - 1))"
    unfolding find_clean_break_def Let_def by (rule scan_heights_result)
  then have cases: "?r = ?s \<or> (?m \<le> ?r \<and> ?r \<le> ?s)"
    unfolding set_range_down by auto
  show ?thesis
  proof (cases "remaining_height < (3 * base_height sp) div 10")
    case True
    with m mb cases have "?r = remaining_height" by auto
    with True show ?thesis by simp
  next
    case False
    with m mb cases have "?m \<le> ?r \<and> ?r \<le> min (base_height sp) remaining_height" by auto
    with False m show ?thesis by simp
  qed
qed

theorem find_clean_break_bounds_witness:
  "0 \<le> base_height small_splitter
   \<and> base_height small_splitter < 2 ^ 50
   \<and> 3 \<le> fst (find_clean_break small_splitter ruled_page 0 25)
   \<and> fst (find_clean_break small_splitter ruled_page 0 25) \<le> 10
   \<and> fst (find_clean_break small_splitter ruled_page 24 1) = 1"
  using find_clean_break_bounds [of small_splitter 25 ruled_page 0]
    find_clean_break_bounds [of small_splitter 1 ruled_page 24]
  by (simp add: small_splitter_def)

text \<open>
  C4 as stated, for every base height, fails at base height \<open>- 10\<close> with 5 pixels
  remaining: the floor is \<open>- 3\<close>, the start height \<open>min(5, - 10) = - 10\<close> is below it, no
  candidate is tested and the locator returns \<open>- 10\<close>, which is neither 5 nor in the
  empty range from \<open>- 3\<close> to \<open>- 10\<close>.
\<close>

theorem find_clean_break_bounds_counterexample:
  "(3 * base_height negative_splitter) div 10 = - 3
   \<and> min_height_of (base_height negative_splitter) = - 3
   \<and> fst (find_clean_break negative_splitter negative_page 0 5) = - 10
   \<and> \<not> (if 5 < (3 * base_height negative_splitter) div 10
          then fst (find_clean_break negative_splitter negative_page 0 5) = 5
          else (3 * base_height negative_splitter) div 10
                 \<le> fst (find_clean_break negative_splitter negative_page 0 5)
             \<and> fst (find_clean_break negative_splitter negative_page 0 5)
                 \<le> min (base_height negative_splitter) 5)"
  by (simp add: negative_splitter_def find_clean_break_def Let_def min_height_of_def
      range_down.simps)

subsection \<open>A remainder below the floor\<close>

text \<open>
  C5. When \<open>maxCandidateHeight\<close> is below \<open>minHeight\<close>, the locator returns
  \<open>min(maxCandidateHeight, baseHeight)\<close> and leaves the page as it was: the list of
  candidates is empty, so the loop body, with its capture and its truncation check, is
  never run. For a base height that is not negative the result is \<open>maxCandidateHeight\<close>,
  the remaining height.
\<close>

theorem find_clean_break_short_remainder:
  assumes "max_height < min_height_of (base_height sp)"
  shows "find_clean_break sp pg y max_height = (min max_height (base_height sp), pg)
       \<and> candidates sp max_height = []
       \<and> shots (snd (find_clean_break sp pg y max_height)) = shots pg
       \<and> (0 \<le> base_height sp \<longrightarrow> fst (find_clean_break sp pg y max_height) = max_height)"
proof -
  from assms have "\<not> min_height_of (base_height sp) - 1 < min max_height (base_height sp)"
    by simp
  then have nil: "range_down (min max_height (base_height sp))
      (min_height_of (base_height sp) - 1) = []"
    by (subst range_down.simps) simp
  then have res: "find_clean_break sp pg y max_height = (min max_height (base_height sp), pg)"
    by (simp add: find_clean_break_def Let_def)
  have "min max_height (base_height sp) = max_height" if "0 \<le> base_height sp"
    using assms min_height_of_le [OF that] by simp
  with res nil show ?thesis by (simp add: candidates_def)
qed

theorem find_clean_break_short_remainder_witness:
  "100 < min_height_of (base_height default_splitter)
   \<and> find_clean_break default_splitter short_page 0 100 = (100, short_page)
   \<and> candidates default_splitter 100 = []"
  using find_clean_break_short_remainder [of 100 default_splitter short_page 0]
  by (simp add: default_splitter_def min_height_of_def)

subsection \<open>The number of captures\<close>

text \<open>
  C8 (amended). The locator is a total function. One call takes at most
  \<open>max(0, startHeight - minHeight + 1)\<close> captures, which is the number of candidate
  heights; the bound \<open>startHeight - minHeight + 1\<close> itself is negative when
  \<open>startHeight\<close> is below \<open>minHeight - 1\<close>.
\<close>

theorem find_clean_break_capture_bound:
  "int (shots (snd (find_clean_break sp pg y max_height))) - int (shots pg)
     \<le> max 0 (min max_height (base_height sp) - min_height_of (base_height sp) + 1)
   \<and> shots pg \<le> shots (snd (find_clean_break sp pg y max_height))
   \<and> int (length (candidates sp max_height))
       = max 0 (min max_height (base_height sp) - min_height_of (base_height sp) + 1)"
proof -
  have len: "int (length (candidates sp max_height))
      = max 0 (min max_height (base_height sp) - min_height_of (base_height sp) + 1)"
    by (simp add: candidates_def length_range_down algebra_simps)
  have "shots pg \<le> shots (snd (find_clean_break sp pg y max_height)) \<and>
      shots (snd (find_clean_break sp pg y max_height))
        \<le> shots pg + length (candidates sp max_height)"
    unfolding find_clean_break_candidates by (rule scan_heights_shots)
  with len show ?thesis by linarith
qed

text \<open>
  C8 as stated fails for the defaults with 100 pixels remaining: the floor is 282, no
  capture is taken, and \<open>startHeight - minHeight + 1\<close> is \<open>- 181\<close>.
\<close>

theorem find_clean_break_capture_bound_counterexample:
  "min_height_of (base_height default_splitter) = 282
   \<and> min 100 (base_height default_splitter) = 100
   \<and> shots (snd (find_clean_break default_splitter short_page 0 100)) = shots short_page
   \<and> \<not> (int (shots (snd (find_clean_break default_splitter short_page 0 100)))
           - int (shots short_page)
         \<le> min 100 (base_height default_splitter)
            - min_height_of (base_height default_splitter) + 1)"
  by (simp add: default_splitter_def min_height_of_def find_clean_break_def Let_def
      range_down.simps)

section \<open>Properties of the pagination driver\<close>

subsection \<open>The loop and its reachable states\<close>

lemma find_clean_break_frame:
  "loaded (snd (find_clean_break sp pg y max_height)) = loaded pg"
  unfolding find_clean_break_candidates by (rule scan_heights_frame)

lemma find_clean_break_le: "fst (find_clean_break sp pg y max_height) \<le> max_height"
proof -
  let ?s = "min max_height (base_height sp)"
  let ?r = "fst (find_clean_break sp pg y max_height)"
  have "?r = ?s \<or> ?r \<in> set (candidates sp max_height)"
    unfolding find_clean_break_candidates by (rule scan_heights_result)
  then show ?thesis by (auto simp add: candidates_def set_range_down)
qed

lemma paging_step_fields:
  "current_top (paging_step sp H st) = current_top st + accepted_height sp H st"
  "idx (paging_step sp H st) = idx st + 1"
  "emitted (paging_step sp H st) = emitted st @
     [\<lparr>out_name = page_file_name (idx st),
       out_image = point_image (binarize_pixel sp)
         (paint (loaded (surface st)) (width sp) (accepted_height sp H st) (current_top st)),
       out_top = current_top st, out_height = accepted_height sp H st\<rparr>]"
  "loaded (surface (paging_step sp H st)) = loaded (surface st)"
  by (simp_all add: paging_step_def accepted_height_def Let_def split_beta screenshot_def
      wait_for_timeout_def set_scroll_top_def set_viewport_size_def find_clean_break_frame)

lemma accepted_height_le: "accepted_height sp H st \<le> H - current_top st"
  unfolding accepted_height_def by (rule find_clean_break_le)

lemma reached_step_left:
  assumes "reached sp H (paging_step sp H st) st'" and "current_top st < H"
  shows "reached sp H st st'"
  using assms
proof (induction rule: reached.induct)
  case start
  then show ?case by (intro reached.step reached.start)
next
  case (step s)
  then show ?case by (intro reached.step) simp_all
qed

lemma paging_loop_reached:
  assumes ret: "paging_loop sp H st = Some st'"
  shows "reached sp H st st' \<and> \<not> current_top st' < H"
proof (rule paging_loop.raw_induct
    [where P = "\<lambda>sp H st st'. reached sp H st st' \<and> \<not> current_top st' < H", OF _ ret])
  fix f sp H st st'
  assume IH: "\<And>sp H st st'. f sp H st = Some st'
      \<Longrightarrow> reached sp H st st' \<and> \<not> current_top st' < H"
    and eq: "(if current_top st < H then f sp H (paging_step sp H st) else Some st) = Some st'"
  show "reached sp H st st' \<and> \<not> current_top st' < H"
  proof (cases "current_top st < H")
    case True
    with eq have "f sp H (paging_step sp H st) = Some st'" by simp
    then have "reached sp H (paging_step sp H st) st' \<and> \<not> current_top st' < H" by (rule IH)
    with True show ?thesis by (auto intro: reached_step_left)
  next
    case False
    with eq have "st' = st" by simp
    with False show ?thesis by (simp add: reached.start)
  qed
qed

lemma paging_loop_terminates:
  assumes pre: "\<And>s. reached sp H st0 s \<Longrightarrow> current_top s < H \<Longrightarrow> 1 \<le> accepted_height sp H s"
    and st: "reached sp H st0 st"
  shows "\<exists>st'. paging_loop sp H st = Some st'"
  using st
proof (induction "nat (H - current_top st)" arbitrary: st rule: less_induct)
  case less
  show ?case
  proof (cases "current_top st < H")
    case True
    from less.prems True have h: "1 \<le> accepted_height sp H st" by (rule pre)
    from less.prems True have r: "reached sp H st0 (paging_step sp H st)" by (rule reached.step)
    from h True have "nat (H - current_top (paging_step sp H st)) < nat (H - current_top st)"
      by (simp add: paging_step_fields)
    then have "\<exists>st'. paging_loop sp H (paging_step sp H st) = Some st'"
      using r by (rule less.hyps)
    with True show ?thesis by (subst paging_loop.simps) simp
  next
    case False
    then show ?thesis by (subst paging_loop.simps) simp
  qed
qed

subsection \<open>Consecutive pages\<close>

lemma tiles_from_snoc:
  "tiles_from a ps b \<Longrightarrow> out_top p = b \<Longrightarrow> 0 < out_height p \<Longrightarrow>
   tiles_from a (ps @ [p]) (b + out_height p)"
  by (induction ps arbitrary: a) auto

lemma tiles_from_le: "tiles_from a ps b \<Longrightarrow> a \<le> b"
  by (induction ps arbitrary: a) fastforce+

lemma tiles_from_empty: "tiles_from a ps a \<Longrightarrow> ps = []"
proof (cases ps)
  case Nil
  then show ?thesis by simp
next
  case (Cons p qs)
  assume "tiles_from a ps a"
  with Cons have "0 < out_height p" and "tiles_from (a + out_height p) qs a" by simp_all
  from this(2) have "a + out_height p \<le> a" by (rule tiles_from_le)
  with \<open>0 < out_height p\<close> show ?thesis by simp
qed

lemma tiles_from_within:
  "tiles_from a ps b \<Longrightarrow> \<forall>p \<in> set ps. a \<le> out_top p \<and> 0 < out_height p
     \<and> out_top p + out_height p \<le> b"
proof (induction ps arbitrary: a)
  case Nil
  show ?case by simp
next
  case (Cons p ps)
  from Cons.prems have p: "out_top p = a" "0 < out_height p"
    and rest: "tiles_from (a + out_height p) ps b" by simp_all
  from rest have "a + out_height p \<le> b" by (rule tiles_from_le)
  moreover from rest have "\<forall>q \<in> set ps. a + out_height p \<le> out_top q \<and> 0 < out_height q
     \<and> out_top q + out_height q \<le> b" by (rule Cons.IH)
  ultimately show ?case using p by auto
qed

lemma tiles_from_union:
  "tiles_from a ps b \<Longrightarrow> (\<Union>p \<in> set ps. {out_top p..<out_top p + out_height p}) = {a..<b}"
proof (induction ps arbitrary: a)
  case Nil
  then show ?case by simp
next
  case (Cons p ps)
  from Cons.prems have p: "out_top p = a" "0 < out_height p"
    and rest: "tiles_from (a + out_height p) ps b" by simp_all
  from rest have le: "a + out_height p \<le> b" by (rule tiles_from_le)
  from rest have "(\<Union>q \<in> set ps. {out_top q..<out_top q + out_height q}) = {a + out_height p..<b}"
    by (rule Cons.IH)
  with p le show ?case by auto
qed

lemma tiles_from_no_overlap:
  "tiles_from a ps b \<Longrightarrow> sorted_wrt (\<lambda>p q. out_top p + out_height p \<le> out_top q) ps"
proof (induction ps arbitrary: a)
  case Nil
  show ?case by simp
next
  case (Cons p ps)
  from Cons.prems have p: "out_top p = a"
    and rest: "tiles_from (a + out_height p) ps b" by simp_all
  from rest have "\<forall>q \<in> set ps. a + out_height p \<le> out_top q \<and> 0 < out_height q
     \<and> out_top q + out_height q \<le> b" by (rule tiles_from_within)
  with p Cons.IH [OF rest] show ?case by simp
qed

lemma tiles_from_increasing:
  "tiles_from a ps b \<Longrightarrow> sorted_wrt (<) (map out_top ps)"
proof (induction ps arbitrary: a)
  case Nil
  show ?case by simp
next
  case (Cons p ps)
  from Cons.prems have p: "out_top p = a" "0 < out_height p"
    and rest: "tiles_from (a + out_height p) ps b" by simp_all
  from rest have "\<forall>q \<in> set ps. a + out_height p \<le> out_top q \<and> 0 < out_height q
     \<and> out_top q + out_height q \<le> b" by (rule tiles_from_within)
  with p have "\<forall>q \<in> set ps. out_top p < out_top q" by auto
  with Cons.IH [OF rest] show ?case by simp
qed

lemma tiles_from_adjacent:
  "tiles_from a ps b \<Longrightarrow> Suc k < length ps \<Longrightarrow>
   out_top (ps ! Suc k) = out_top (ps ! k) + out_height (ps ! k)"
proof (induction ps arbitrary: a k)
  case Nil
  then show ?case by simp
next
  case (Cons p ps)
  from Cons.prems have p: "out_top p = a"
    and rest: "tiles_from (a + out_height p) ps b" by simp_all
  show ?case
  proof (cases k)
    case 0
    with Cons.prems obtain q qs where "ps = q # qs" by (cases ps) auto
    with rest p 0 show ?thesis by simp
  next
    case (Suc j)
    with Cons.prems have "Suc j < length ps" by simp
    with rest have "out_top (ps ! Suc j) = out_top (ps ! j) + out_height (ps ! j)"
      by (rule Cons.IH)
    with Suc show ?thesis by simp
  qed
qed

lemma tiles_from_ends:
  "tiles_from a ps b \<Longrightarrow> ps \<noteq> [] \<Longrightarrow>
   out_top (hd ps) = a \<and> out_top (last ps) + out_height (last ps) = b"
proof (induction ps arbitrary: a)
  case Nil
  then show ?case by simp
next
  case (Cons p ps)
  from Cons.prems have p: "out_top p = a"
    and rest: "tiles_from (a + out_height p) ps b" by simp_all
  show ?case
  proof (cases "ps = []")
    case True
    with rest p show ?thesis by simp
  next
    case False
    with rest have "out_top (last ps) + out_height (last ps) = b"
      using Cons.IH by blast
    with False p show ?thesis by simp
  qed
qed

subsection \<open>Invariants of the loop\<close>

lemma reached_tiles:
  assumes pre: "\<And>s. reached sp H st0 s \<Longrightarrow> current_top s < H \<Longrightarrow> 1 \<le> accepted_height sp H s"
    and init: "emitted st0 = []" "current_top st0 = 0"
    and st: "reached sp H st0 st"
  shows "tiles_from 0 (emitted st) (current_top st) \<and> current_top st \<le> max 0 H"
  using st
proof (induction rule: reached.induct)
  case start
  from init show ?case by simp
next
  case (step s)
  from step.hyps(1,2) have h: "1 \<le> accepted_height sp H s" by (rule pre)
  have le: "accepted_height sp H s \<le> H - current_top s" by (rule accepted_height_le)
  from step.IH have "tiles_from 0 (emitted s) (current_top s)" by simp
  then have "tiles_from 0 (emitted (paging_step sp H s)) (current_top (paging_step sp H s))"
    using h unfolding paging_step_fields by (intro tiles_from_snoc [where b = "current_top s" and p = "\<lparr>out_name = page_file_name (idx s),
       out_image = point_image (binarize_pixel sp)
         (paint (loaded (surface s)) (width sp) (accepted_height sp H s) (current_top s)),
       out_top = current_top s, out_height = accepted_height sp H s\<rparr>", simplified]) simp_all
  moreover from le have "current_top (paging_step sp H s) \<le> max 0 H"
    by (simp add: paging_step_fields)
  ultimately show ?case by simp
qed

lemma reached_outputs:
  assumes init: "emitted st0 = []"
    and st: "reached sp H st0 st"
  shows "idx st = idx st0 + int (length (emitted st))
       \<and> map out_name (emitted st)
           = map (\<lambda>k. page_file_name (idx st0 + int k)) [0..<length (emitted st)]
       \<and> loaded (surface st) = loaded (surface st0)
       \<and> (\<forall>p \<in> set (emitted st). out_image p = point_image (binarize_pixel sp)
             (paint (loaded (surface st0)) (width sp) (out_height p) (out_top p)))"
  using st
proof (induction rule: reached.induct)
  case start
  from init show ?case by simp
next
  case (step s)
  then show ?case by (simp add: paging_step_fields)
qed


lemma start_paging_fields:
  "current_top (start_paging sp pg html i) = 0"
  "idx (start_paging sp pg html i) = i"
  "emitted (start_paging sp pg html i) = []"
  "loaded (surface (start_paging sp pg html i)) = html (text_size sp)"
  by (simp_all add: start_paging_def goto_def)

lemma process_html_reached:
  assumes "process_html sp pg html i = Some (n, out, pg')"
  shows "\<exists>st. reached sp (scroll_height (html (text_size sp))) (start_paging sp pg html i) st
           \<and> \<not> current_top st < scroll_height (html (text_size sp))
           \<and> n = idx st \<and> out = emitted st \<and> pg' = surface st"
proof -
  let ?H = "scroll_height (html (text_size sp))"
  let ?st0 = "start_paging sp pg html i"
  from assms obtain st where loop: "paging_loop sp ?H ?st0 = Some st"
    and res: "n = idx st" "out = emitted st" "pg' = surface st"
    by (auto simp add: process_html_def Let_def start_paging_fields split: option.splits)
  from loop have "reached sp ?H ?st0 st \<and> \<not> current_top st < ?H" by (rule paging_loop_reached)
  with res show ?thesis by blast
qed

lemma process_html_outputs:
  assumes "process_html sp pg html i = Some (n, out, pg')"
  shows "n = i + int (length out)
       \<and> map out_name out = map (\<lambda>k. page_file_name (i + int k)) [0..<length out]
       \<and> (\<forall>p \<in> set out. out_image p = point_image (binarize_pixel sp)
             (paint (html (text_size sp)) (width sp) (out_height p) (out_top p)))"
proof -
  from assms obtain st
    where "reached sp (scroll_height (html (text_size sp))) (start_paging sp pg html i) st"
      and res: "n = idx st" "out = emitted st"
    using process_html_reached by blast
  from reached_outputs [OF start_paging_fields(3) this(1)] res show ?thesis
    by (simp add: start_paging_fields)
qed

lemma map_upt_add:
  "map f [0..<a + b] = map f [0..<a] @ map (\<lambda>k. f (a + k)) [0..<b]"
  by (induction b) simp_all

lemma process_files_outputs:
  "process_files sp pg i html_files = Some (n, out, pg') \<Longrightarrow>
   n = i + int (length out)
   \<and> map out_name out = map (\<lambda>k. page_file_name (i + int k)) [0..<length out]
   \<and> (\<forall>p \<in> set out. \<exists>html \<in> set html_files. out_image p = point_image (binarize_pixel sp)
         (paint (html (text_size sp)) (width sp) (out_height p) (out_top p)))"
proof (induction html_files arbitrary: pg i n out pg')
  case Nil
  then show ?case by simp
next
  case (Cons html rest)
  from Cons.prems obtain i1 out1 pg1 out2
    where first: "process_html sp pg html i = Some (i1, out1, pg1)"
      and others: "process_files sp pg1 i1 rest = Some (n, out2, pg')"
      and out: "out = out1 @ out2"
    by (auto split: option.splits)
  from first have h1: "i1 = i + int (length out1)"
    and n1: "map out_name out1 = map (\<lambda>k. page_file_name (i + int k)) [0..<length out1]"
    and b1: "\<forall>p \<in> set out1. out_image p = point_image (binarize_pixel sp)
             (paint (html (text_size sp)) (width sp) (out_height p) (out_top p))"
    using process_html_outputs by blast+
  from others have h2: "n = i1 + int (length out2)"
    and n2: "map out_name out2 = map (\<lambda>k. page_file_name (i1 + int k)) [0..<length out2]"
    and b2: "\<forall>p \<in> set out2. \<exists>html \<in> set rest. out_image p = point_image (binarize_pixel sp)
         (paint (html (text_size sp)) (width sp) (out_height p) (out_top p))"
    using Cons.IH by blast+
  have "map (\<lambda>k. page_file_name (i + int k)) [0..<length out1 + length out2]
      = map (\<lambda>k. page_file_name (i + int k)) [0..<length out1]
        @ map (\<lambda>k. page_file_name (i + int (length out1 + k))) [0..<length out2]"
    by (rule map_upt_add)
  also have "(\<lambda>k. page_file_name (i + int (length out1 + k)))
      = (\<lambda>k. page_file_name (i1 + int k))"
    unfolding h1 by (simp add: add.assoc)
  finally have "map (\<lambda>k. page_file_name (i + int k)) [0..<length out1 + length out2]
      = map out_name out1 @ map out_name out2"
    unfolding n1 n2 .
  then have names:
    "map out_name out = map (\<lambda>k. page_file_name (i + int k)) [0..<length out]"
    unfolding out by simp
  from h1 h2 out have "n = i + int (length out)" by simp
  moreover from b1 b2 out
  have "\<forall>p \<in> set out. \<exists>html \<in> set (html # rest). out_image p = point_image (binarize_pixel sp)
         (paint (html (text_size sp)) (width sp) (out_height p) (out_top p))"
    by auto
  ultimately show ?case using names by simp
qed

subsection \<open>Unfolding the loop on a concrete document\<close>

lemma paging_loop_continue:
  "current_top st < H \<Longrightarrow> paging_loop sp H st = paging_loop sp H (paging_step sp H st)"
  by (subst paging_loop.simps) simp

lemma paging_loop_stop: "\<not> current_top st < H \<Longrightarrow> paging_loop sp H st = Some st"
  by (subst paging_loop.simps) simp

lemma find_clean_break_ge:
  "min (min max_height (base_height sp)) (min_height_of (base_height sp))
     \<le> fst (find_clean_break sp pg y max_height)"
proof -
  let ?s = "min max_height (base_height sp)"
  let ?r = "fst (find_clean_break sp pg y max_height)"
  have "?r = ?s \<or> ?r \<in> set (candidates sp max_height)"
    unfolding find_clean_break_candidates by (rule scan_heights_result)
  then show ?thesis by (auto simp add: candidates_def set_range_down)
qed

lemma scroll_height_ruled: "scroll_height (ruled H s) = H"
  by (simp add: ruled_def)

lemma replicate_small:
  "replicate 1 c = [c]" "replicate 2 c = [c, c]" "replicate 3 c = [c, c, c]"
  by (simp_all add: numeral_2_eq_2 numeral_3_eq_3)

lemma page_file_name_values:
  "page_file_name 0 = ''0000.png''" "page_file_name 1 = ''0001.png''"
  "page_file_name 2 = ''0002.png''" "page_file_name 3 = ''0003.png''"
  "page_file_name 4 = ''0004.png''" "page_file_name 5 = ''0005.png''"
  "page_file_name 12 = ''0012.png''" "page_file_name 12345 = ''12345.png''"
  "page_file_name (- 5) = ''-005.png''"
  by (simp_all add: page_file_name_def format_04d_def zfill_def dec_digits.simps
      replicate_small)


lemma min_height_of_positive: "4 \<le> b \<Longrightarrow> 1 \<le> min_height_of b"
  by (simp add: min_height_of_def)

lemma accepted_height_positive:
  assumes "4 \<le> base_height sp" and "current_top st < H"
  shows "1 \<le> accepted_height sp H st"
proof -
  from assms(1) have "1 \<le> min_height_of (base_height sp)" by (rule min_height_of_positive)
  with assms have "1 \<le> min (min (H - current_top st) (base_height sp))
      (min_height_of (base_height sp))" by simp
  also have "\<dots> \<le> accepted_height sp H st"
    unfolding accepted_height_def by (rule find_clean_break_ge)
  finally show ?thesis .
qed

lemma ruled_run:
  "map_option (\<lambda>(n, out, pg). (n, map (\<lambda>p. (out_top p, out_height p)) out))
     (process_html small_splitter (new_page small_splitter) (ruled 25) 0)
   = Some (4, [(0, 8), (8, 8), (16, 8), (24, 1)])"
  by (simp add: process_html_def start_paging_def Let_def paging_loop_continue paging_loop_stop
      paging_step_def find_clean_break_def min_height_of_def range_down.simps
      goto_def new_page_def screenshot_def wait_for_timeout_def split_beta
      set_scroll_top_def set_viewport_size_def small_splitter_def
      cut_off_ruled [unfolded small_splitter_def] scroll_height_ruled)

subsection \<open>The pages tile the document\<close>

text \<open>
  C3. If every height that the locator returns during the run of \<^verbatim>\<open>process_html\<close> on
  a document is at least 1, the loop terminates, and the accepted intervals
  \<open>[currentTop, currentTop + height)\<close> tile \<open>[0, totalHeight)\<close>: their union is that
  range, each ends at or before the start of every later one, the offsets increase
  strictly, each interval starts where the one before it ends, the first starts at 0 and
  the last ends at \<open>totalHeight\<close>.
\<close>

theorem process_html_tiles:
  assumes "\<forall>s. reached sp (scroll_height (html (text_size sp))) (start_paging sp pg html i) s
               \<and> current_top s < scroll_height (html (text_size sp))
             \<longrightarrow> 1 \<le> accepted_height sp (scroll_height (html (text_size sp))) s"
  shows "\<exists>n out pg'. process_html sp pg html i = Some (n, out, pg')
      \<and> (\<Union>p \<in> set out. {out_top p..<out_top p + out_height p})
          = {0..<scroll_height (html (text_size sp))}
      \<and> sorted_wrt (\<lambda>p q. out_top p + out_height p \<le> out_top q) out
      \<and> sorted_wrt (<) (map out_top out)
      \<and> (\<forall>p \<in> set out. 0 < out_height p)
      \<and> (\<forall>k. Suc k < length out
            \<longrightarrow> out_top (out ! Suc k) = out_top (out ! k) + out_height (out ! k))
      \<and> (out \<noteq> [] \<longrightarrow> out_top (hd out) = 0
            \<and> out_top (last out) + out_height (last out) = scroll_height (html (text_size sp)))"
proof -
  let ?H = "scroll_height (html (text_size sp))"
  let ?st0 = "start_paging sp pg html i"
  from assms have pre: "\<And>s. reached sp ?H ?st0 s \<Longrightarrow> current_top s < ?H
      \<Longrightarrow> 1 \<le> accepted_height sp ?H s" by blast
  from pre reached.start obtain st where loop: "paging_loop sp ?H ?st0 = Some st"
    using paging_loop_terminates by blast
  then have st: "reached sp ?H ?st0 st" and stop: "\<not> current_top st < ?H"
    using paging_loop_reached by blast+
  from pre start_paging_fields(3) start_paging_fields(1) st
  have "tiles_from 0 (emitted st) (current_top st) \<and> current_top st \<le> max 0 ?H"
    by (rule reached_tiles)
  then have tiles: "tiles_from 0 (emitted st) (current_top st)"
    and le: "current_top st \<le> max 0 ?H" by simp_all
  from tiles have ge: "0 \<le> current_top st" by (rule tiles_from_le)
  from stop le ge have top: "{0..<current_top st} = {0..<?H}" by auto
  from stop le ge have last: "emitted st \<noteq> [] \<Longrightarrow> current_top st = ?H"
    using tiles_from_empty [of 0 "emitted st"] tiles by (cases "0 \<le> ?H") auto
  have run: "process_html sp pg html i = Some (idx st, emitted st, surface st)"
    using loop by (simp add: process_html_def Let_def start_paging_fields)
  have u: "(\<Union>p \<in> set (emitted st). {out_top p..<out_top p + out_height p}) = {0..<?H}"
    using tiles_from_union [OF tiles] top by simp
  have a: "sorted_wrt (\<lambda>p q. out_top p + out_height p \<le> out_top q) (emitted st)"
    using tiles by (rule tiles_from_no_overlap)
  have b: "sorted_wrt (<) (map out_top (emitted st))"
    using tiles by (rule tiles_from_increasing)
  have c: "\<forall>p \<in> set (emitted st). 0 < out_height p"
    using tiles_from_within [OF tiles] by blast
  have d: "\<forall>k. Suc k < length (emitted st) \<longrightarrow>
      out_top (emitted st ! Suc k) = out_top (emitted st ! k) + out_height (emitted st ! k)"
    using tiles_from_adjacent [OF tiles] by blast
  have e: "emitted st \<noteq> [] \<longrightarrow> out_top (hd (emitted st)) = 0
      \<and> out_top (last (emitted st)) + out_height (last (emitted st)) = ?H"
    using tiles_from_ends [OF tiles] last by auto
  from run u a b c d e show ?thesis by blast
qed

theorem process_html_tiles_witness:
  "\<exists>n out pg'. process_html small_splitter (new_page small_splitter) (ruled 25) 0
        = Some (n, out, pg')
      \<and> map (\<lambda>p. (out_top p, out_height p)) out = [(0, 8), (8, 8), (16, 8), (24, 1)]
      \<and> (\<Union>p \<in> set out. {out_top p..<out_top p + out_height p}) = {0..<25}
      \<and> sorted_wrt (\<lambda>p q. out_top p + out_height p \<le> out_top q) out
      \<and> sorted_wrt (<) (map out_top out)
      \<and> (\<forall>p \<in> set out. 0 < out_height p)
      \<and> out_top (last out) + out_height (last out) = 25"
proof -
  have base: "4 \<le> base_height small_splitter" by (simp add: small_splitter_def)
  have "\<forall>s. reached small_splitter (scroll_height (ruled 25 (text_size small_splitter)))
          (start_paging small_splitter (new_page small_splitter) (ruled 25) 0) s
        \<and> current_top s < scroll_height (ruled 25 (text_size small_splitter))
      \<longrightarrow> 1 \<le> accepted_height small_splitter
            (scroll_height (ruled 25 (text_size small_splitter))) s"
    using accepted_height_positive [OF base] by blast
  from process_html_tiles [OF this] obtain n out pg'
    where run: "process_html small_splitter (new_page small_splitter) (ruled 25) 0
        = Some (n, out, pg')"
      and u: "(\<Union>p \<in> set out. {out_top p..<out_top p + out_height p})
          = {0..<scroll_height (ruled 25 (text_size small_splitter))}"
      and a: "sorted_wrt (\<lambda>p q. out_top p + out_height p \<le> out_top q) out"
      and b: "sorted_wrt (<) (map out_top out)"
      and c: "\<forall>p \<in> set out. 0 < out_height p"
      and e: "out \<noteq> [] \<longrightarrow> out_top (hd out) = 0
            \<and> out_top (last out) + out_height (last out)
                = scroll_height (ruled 25 (text_size small_splitter))"
    by blast
  from ruled_run run
  have v: "map (\<lambda>p. (out_top p, out_height p)) out = [(0, 8), (8, 8), (16, 8), (24, 1)]"
    by simp
  then have "out \<noteq> []" by auto
  with e have "out_top (last out) + out_height (last out) = 25"
    by (simp add: scroll_height_ruled)
  with run v u a b c show ?thesis by (simp add: scroll_height_ruled)
qed

section \<open>Properties of the run\<close>

subsection \<open>Auxiliary facts and concrete runs\<close>

lemma length_dec_digits: "0 < k \<Longrightarrow> n < 10 ^ k \<Longrightarrow> length (dec_digits n) \<le> k"
proof (induction k arbitrary: n)
  case 0
  then show ?case by simp
next
  case (Suc k)
  show ?case
  proof (cases "n < 10")
    case True
    then show ?thesis by (subst dec_digits.simps) simp
  next
    case False
    with Suc.prems have k: "0 < k" by (cases k) auto
    from Suc.prems have "n div 10 < 10 ^ k" by simp
    with k have "length (dec_digits (n div 10)) \<le> k" by (rule Suc.IH)
    with False show ?thesis by (subst dec_digits.simps) simp
  qed
qed

lemma length_format_04d:
  assumes "0 \<le> i" and "i < 10000"
  shows "length (format_04d i) = 4"
proof -
  from assms have "nat i < 10 ^ 4" by simp
  then have "length (dec_digits (nat i)) \<le> 4" by (intro length_dec_digits) simp_all
  with assms show ?thesis by (simp add: format_04d_def zfill_def)
qed

lemma scroll_height_uniform: "scroll_height (uniform c H s) = H"
  by (simp add: uniform_def)

lemma cut_off_uniform_paint:
  "is_text_cut_off sp (paint (uniform c H s) w h y)
     \<longleftrightarrow> 0 < h \<and> 0 < w \<and> uint c < threshold sp"
  by (simp add: uniform_def cut_off_uniform)

lemmas run_simps =
  process_def process_html_def start_paging_def Let_def paging_loop_continue paging_loop_stop
  paging_step_def find_clean_break_def min_height_of_def range_down.simps
  goto_def new_page_def screenshot_def wait_for_timeout_def split_beta
  set_scroll_top_def set_viewport_size_def small_splitter_def
  cut_off_ruled [unfolded small_splitter_def] scroll_height_ruled
  scroll_height_uniform cut_off_uniform_paint

lemma two_documents_run:
  "\<exists>out. process small_splitter (Inr [ruled 25, uniform 255 12]) = Some (Inr (6, out))
      \<and> map (\<lambda>p. (out_top p, out_height p)) out
          = [(0, 8), (8, 8), (16, 8), (24, 1), (0, 10), (10, 2)]
      \<and> map out_name out
          = [''0000.png'', ''0001.png'', ''0002.png'', ''0003.png'', ''0004.png'', ''0005.png'']"
  by (simp add: run_simps page_file_name_values)

lemma gray_page_run:
  "\<exists>out. process small_splitter (Inr [gray_page]) = Some (Inr (1, out))
      \<and> map (\<lambda>p. (out_top p, out_height p)) out = [(0, 2)]"
  by (simp add: run_simps gray_page_def is_text_cut_off_def bottom_row_def)

lemma bottom_row_uniform:
  "0 < h \<Longrightarrow>
   bottom_row (point_image f (paint (uniform c H s) w h y)) = replicate (nat w) (f c)"
  by (simp add: uniform_def bottom_row_def point_image_def)

lemma edge_page_run:
  "\<exists>out pg. process_html small_splitter (new_page small_splitter) edge_page 0
        = Some (1, out, pg)
      \<and> map (\<lambda>p. (out_top p, out_height p, bottom_row (out_image p))) out
          = [(0, 10, [0, 0])]
      \<and> shots pg = 2"
  by (simp add: run_simps edge_page_def bottom_row_uniform binarize_pixel_def replicate_small)

lemma splitter_of_small_args: "splitter_of_args small_args = small_splitter"
  by (simp add: splitter_of_args_def small_args_def small_splitter_def)

subsection \<open>Runs that complete\<close>

text \<open>
  With a base height of at least 4 the floor is at least 1, every accepted height is
  positive, and the run of \<^verbatim>\<open>process\<close> returns for every list of documents.
\<close>

lemma process_html_completes:
  assumes "4 \<le> base_height sp"
  shows "\<exists>r. process_html sp pg html i = Some r"
proof -
  let ?H = "scroll_height (html (text_size sp))"
  let ?st0 = "start_paging sp pg html i"
  have "\<exists>st. paging_loop sp ?H ?st0 = Some st"
  proof (rule paging_loop_terminates)
    show "reached sp ?H ?st0 ?st0" by (rule reached.start)
  next
    fix s :: paging
    assume "current_top s < ?H"
    with assms show "1 \<le> accepted_height sp ?H s" by (rule accepted_height_positive)
  qed
  then show ?thesis
    by (auto simp add: process_html_def Let_def start_paging_fields)
qed

lemma process_files_completes:
  assumes "4 \<le> base_height sp"
  shows "\<exists>r. process_files sp pg i html_files = Some r"
proof (induction html_files arbitrary: pg i)
  case Nil
  show ?case by simp
next
  case (Cons html rest)
  from assms obtain i1 out1 pg1 where first: "process_html sp pg html i = Some (i1, out1, pg1)"
    using process_html_completes by (metis prod_cases3)
  from Cons.IH obtain n out2 pg2 where "process_files sp pg1 i1 rest = Some (n, out2, pg2)"
    by (metis prod_cases3)
  with first show ?case by simp
qed

lemma process_completes:
  assumes "4 \<le> base_height sp"
  shows "\<exists>r. process sp spine = Some r"
proof (cases spine)
  case (Inl e)
  then show ?thesis by (simp add: process_def)
next
  case (Inr html_files)
  from assms obtain n out pg
    where "process_files sp (new_page sp) 0 html_files = Some (n, out, pg)"
    using process_files_completes by (metis prod_cases3)
  with Inr show ?thesis by (simp add: process_def)
qed

subsection \<open>The global page index\<close>

text \<open>
  C6. In a run of \<^verbatim>\<open>process\<close> that completes, the page index starts at 0 and grows
  by one with each page across all documents: the run returns the number \<open>N\<close> of pages,
  and the \<open>k\<close>-th page written, for \<open>k = 0, \<dots>, N - 1\<close>, has the file name made of \<open>k\<close>
  in decimal, padded with zeros to four digits (exactly four below 10000), and
  \<^verbatim>\<open>.png\<close>. Within the run, \<^verbatim>\<open>process_html\<close> returns its start index plus the number
  of its pages, and that is the start index of the next document.
\<close>

theorem process_page_indices:
  assumes "process sp (Inr html_files) = Some (Inr (n, out))"
  shows "n = int (length out)
       \<and> map out_name out = map (\<lambda>k. format_04d (int k) @ ''.png'') [0..<length out]
       \<and> (\<forall>k < length out. k < 10000 \<longrightarrow> length (format_04d (int k)) = 4)"
proof -
  from assms obtain pg' where "process_files sp (new_page sp) 0 html_files = Some (n, out, pg')"
    by (auto simp add: process_def split: option.splits)
  then have "n = 0 + int (length out)
       \<and> map out_name out = map (\<lambda>k. page_file_name (0 + int k)) [0..<length out]"
    using process_files_outputs by blast
  moreover have "\<forall>k < length out. k < 10000 \<longrightarrow> length (format_04d (int k)) = 4"
    by (simp add: length_format_04d)
  ultimately show ?thesis by (simp add: page_file_name_def)
qed

theorem process_page_indices_witness:
  "\<exists>out. process small_splitter (Inr [ruled 25, uniform 255 12]) = Some (Inr (6, out))
      \<and> map out_name out
          = [''0000.png'', ''0001.png'', ''0002.png'', ''0003.png'', ''0004.png'', ''0005.png'']"
proof -
  from two_documents_run obtain out
    where run: "process small_splitter (Inr [ruled 25, uniform 255 12]) = Some (Inr (6, out))"
    by (elim exE conjE)
  from process_page_indices [OF run]
  have len: "6 = int (length out)"
    and names: "map out_name out = map (\<lambda>k. format_04d (int k) @ ''.png'') [0..<length out]"
    by blast+
  from len have "length out = 6" by simp
  moreover have "[0..<6] = [0, 1, 2, 3, 4, 5 :: nat]" by code_simp
  ultimately have files: "map out_name out
      = [''0000.png'', ''0001.png'', ''0002.png'', ''0003.png'', ''0004.png'', ''0005.png'']"
    using names page_file_name_values by (simp add: page_file_name_def)
  show ?thesis by (rule exI [of _ out]) (rule conjI [OF run files])
qed

subsection \<open>The binarizer\<close>

text \<open>
  C7. Every image written by a run that completes is the capture of one of the
  documents, at the page's scroll offset and accepted height, with each grayscale value
  \<open>v\<close> replaced by 255 (white) if \<open>v\<close> is above the threshold and by 0 (black) otherwise.
\<close>

theorem emitted_pages_binarized:
  assumes "process sp (Inr html_files) = Some (Inr (n, out))"
  shows "\<forall>p \<in> set out. \<exists>html \<in> set html_files.
           out_image p = map (map (\<lambda>v. if uint v > threshold sp then 255 else 0))
             (paint (html (text_size sp)) (width sp) (out_height p) (out_top p))"
proof -
  from assms obtain pg' where "process_files sp (new_page sp) 0 html_files = Some (n, out, pg')"
    by (auto simp add: process_def split: option.splits)
  then have "\<forall>p \<in> set out. \<exists>html \<in> set html_files.
      out_image p = point_image (binarize_pixel sp)
         (paint (html (text_size sp)) (width sp) (out_height p) (out_top p))"
    using process_files_outputs by blast
  moreover have "point_image (binarize_pixel sp)
      = map (map (\<lambda>v. if uint v > threshold sp then 255 else 0))"
    by (rule ext) (simp add: point_image_def binarize_pixel_def)
  ultimately show ?thesis by simp
qed

theorem emitted_pages_binarized_witness:
  "\<exists>out. process small_splitter (Inr [gray_page]) = Some (Inr (1, out))
      \<and> map out_image out = [[[255, 255], [0, 0]]]"
proof -
  from gray_page_run obtain out
    where run: "process small_splitter (Inr [gray_page]) = Some (Inr (1, out))"
      and shape: "map (\<lambda>p. (out_top p, out_height p)) out = [(0, 2)]"
    by (elim exE conjE)
  from shape obtain p where out: "out = [p]" by auto
  from emitted_pages_binarized [OF run] out
  have "out_image p = map (map (\<lambda>v. if uint v > threshold small_splitter then 255 else 0))
             (paint (gray_page (text_size small_splitter)) (width small_splitter)
                (out_height p) (out_top p))"
    by simp
  then have "out_image p = [[255, 255], [0, 0]]"
    by (simp add: gray_page_def small_splitter_def)
  with out have images: "map out_image out = [[[255, 255], [0, 0]]]" by simp
  show ?thesis by (rule exI [of _ out]) (rule conjI [OF run images])
qed

subsection \<open>The threshold itself\<close>

text \<open>
  C10. A gray level equal to the threshold is clean for the truncation check and black
  for the binarizer: a capture whose bottom row consists of such pixels is not cut off,
  and its written bottom row is black; whenever the bottom row of a capture contains
  such a pixel, the written bottom row contains a black one.
\<close>

theorem threshold_boundary:
  assumes "uint v = threshold sp"
  shows "\<not> is_text_cut_off sp (rows @ [replicate (Suc k) v])
       \<and> binarize_pixel sp v = 0
       \<and> bottom_row (point_image (binarize_pixel sp) (rows @ [replicate (Suc k) v]))
           = replicate (Suc k) 0
       \<and> (\<forall>img. v \<in> set (bottom_row img)
             \<longrightarrow> 0 \<in> set (bottom_row (point_image (binarize_pixel sp) img)))"
proof -
  from assms have clean: "\<not> is_text_cut_off sp (rows @ [replicate (Suc k) v])"
    by (simp add: is_text_cut_off_def bottom_row_def list_ex_iff)
  from assms have black: "binarize_pixel sp v = 0" by (simp add: binarize_pixel_def)
  then have row: "bottom_row (point_image (binarize_pixel sp) (rows @ [replicate (Suc k) v]))
      = replicate (Suc k) 0"
    by (simp add: bottom_row_def point_image_def)
  have "0 \<in> set (bottom_row (point_image (binarize_pixel sp) img))"
    if "v \<in> set (bottom_row img)" for img
  proof -
    from that have "img \<noteq> []" by (auto simp add: bottom_row_def)
    then have "bottom_row (point_image (binarize_pixel sp) img)
        = map (binarize_pixel sp) (bottom_row img)"
      by (simp add: bottom_row_def point_image_def last_map)
    with that black show ?thesis by force
  qed
  with clean black row show ?thesis by blast
qed

theorem threshold_boundary_witness:
  "uint (220 :: pixel) = threshold small_splitter
   \<and> \<not> is_text_cut_off small_splitter (replicate 9 [220, 220] @ [replicate (Suc 1) 220])
   \<and> binarize_pixel small_splitter 220 = 0
   \<and> bottom_row (point_image (binarize_pixel small_splitter)
        (replicate 9 [220, 220] @ [replicate (Suc 1) 220])) = replicate (Suc 1) 0
   \<and> (\<exists>out pg. process_html small_splitter (new_page small_splitter) edge_page 0
        = Some (1, out, pg)
      \<and> map (\<lambda>p. (out_top p, out_height p, bottom_row (out_image p))) out
          = [(0, 10, [0, 0])]
      \<and> shots pg = 2)"
proof -
  have eq: "uint (220 :: pixel) = threshold small_splitter"
    by (simp add: small_splitter_def)
  from threshold_boundary [OF eq, of "replicate 9 [220, 220]" 1] eq edge_page_run
  show ?thesis by (elim conjE) (intro conjI)
qed

subsection \<open>The output directory\<close>

text \<open>
  C9. If the output path is a directory with at least one entry, \<^verbatim>\<open>main\<close> ends with
  the usage error before anything is processed and leaves the directory as it is: no
  page file is written. If the path does not exist or is an empty directory, the check
  passes and the outcome is that of \<^verbatim>\<open>process\<close>.
\<close>

theorem main_output_directory_check:
  "(out_dir = Directory (e # es) \<longrightarrow>
      main a out_dir spine
        = Some (Inl (Usage_error ''Output directory must be empty''), out_dir))
   \<and> (out_dir = Missing \<or> out_dir = Directory [] \<longrightarrow>
      main a out_dir spine =
        (case process (splitter_of_args a) spine of
           None \<Rightarrow> None
         | Some (Inl err) \<Rightarrow> Some (Inl err, Directory [])
         | Some (Inr (n, out)) \<Rightarrow>
             Some (Inr n, Directory (foldl save_file [] (map out_name out)))))"
  by (auto simp add: main_def)

theorem main_output_directory_check_witness:
  "main small_args (Directory [''cover.png'']) (Inr [ruled 25, uniform 255 12])
     = Some (Inl (Usage_error ''Output directory must be empty''), Directory [''cover.png''])
   \<and> main small_args Missing (Inr [ruled 25, uniform 255 12])
     = Some (Inr 6, Directory
         [''0000.png'', ''0001.png'', ''0002.png'', ''0003.png'', ''0004.png'', ''0005.png''])
   \<and> main small_args (Directory []) (Inr [ruled 25, uniform 255 12])
     = main small_args Missing (Inr [ruled 25, uniform 255 12])"
proof -
  let ?spine = "Inr [ruled 25, uniform 255 12] :: error + html_file list"
  from two_documents_run obtain out
    where run: "process small_splitter ?spine = Some (Inr (6, out))"
      and names: "map out_name out
          = [''0000.png'', ''0001.png'', ''0002.png'', ''0003.png'', ''0004.png'', ''0005.png'']"
    by (elim exE conjE)
  have files: "foldl save_file [] (map out_name out)
      = [''0000.png'', ''0001.png'', ''0002.png'', ''0003.png'', ''0004.png'', ''0005.png'']"
    unfolding names by (simp add: save_file_def)
  have rejected: "main small_args (Directory [''cover.png'']) ?spine
     = Some (Inl (Usage_error ''Output directory must be empty''), Directory [''cover.png''])"
    using main_output_directory_check [of "Directory [''cover.png'']" "''cover.png''" "[]"
        small_args ?spine]
    by (elim conjE) simp
  have missing: "main small_args Missing ?spine = Some (Inr 6, Directory
         [''0000.png'', ''0001.png'', ''0002.png'', ''0003.png'', ''0004.png'', ''0005.png''])"
    using main_output_directory_check [of Missing "''cover.png''" "[]" small_args ?spine]
    by (simp add: splitter_of_small_args run files)
  have empty: "main small_args (Directory []) ?spine = main small_args Missing ?spine"
    using main_output_directory_check [of "Directory []" "''cover.png''" "[]" small_args ?spine] missing
    by (simp add: splitter_of_small_args run files)
  from rejected missing empty show ?thesis by (intro conjI)
qed

end
